theory Spec2Isabelle
  imports Main
begin

section \<open>The maze solver of Project2.py\<close>

text \<open>
  A shallow embedding of the iterative-deepening depth-first search of
  \<^verbatim>\<open>Project2.py\<close>. Python integers are \<open>int\<close>, strings are \<open>string\<close>, the grid
  is a list of rows of cell tokens, and every exception of the source is a value of the
  type \<open>error\<close>.
\<close>

subsection \<open>Data\<close>

text \<open>
  The two faults the search engine can raise: \<^verbatim>\<open>KeyError\<close> from the lookup
  \<^verbatim>\<open>directions[direction]\<close> (carrying the key), and \<^verbatim>\<open>IndexError\<close> from
  \<^verbatim>\<open>graph[row][col]\<close>.
\<close>

datatype error = KeyError string | IndexError

text \<open>
  The members of the \<^verbatim>\<open>explored\<close> set. The source builds the first set with
  \<^verbatim>\<open>set((0, 0))\<close>, the set of the components of the tuple, and later adds
  tuples \<^verbatim>\<open>(next_row, next_col)\<close>; so a set holds integers and pairs.
\<close>

datatype elem = IntE int | PairE int int

text \<open>The class \<^verbatim>\<open>MazeNode\<close>.\<close>

record MazeNode =
  node_row :: int
  node_col :: int
  explored :: "elem set"
  path :: "string list"
  depth :: int

text \<open>What one pass of the inner \<^verbatim>\<open>for\<close> loop leaves behind: a raised fault, the
  \<^verbatim>\<open>return\<close> of the final path, or the stack with which the outer loop goes on.\<close>

datatype loop_result = Raise error | Found string | Continue "MazeNode list"

subsection \<open>Strings\<close>

text \<open>
  \<^verbatim>\<open>str.upper\<close>. Strings are lists of 8-bit characters (code points below 256). The
  letters a to z go to A to Z. Python sends every other such character to itself, to a
  character that is not ASCII, or (the sharp s) to \<^verbatim>\<open>SS\<close>; since no key of
  \<open>directions\<close> below holds a non-ASCII character or \<^verbatim>\<open>SS\<close>, leaving these
  characters unchanged gives the same lookup.
\<close>

definition upper_char :: "char \<Rightarrow> char" where
  "upper_char c =
     (if 97 \<le> (of_char c :: nat) \<and> (of_char c :: nat) \<le> 122
      then char_of ((of_char c :: nat) - 32) else c)"

definition upper :: "string \<Rightarrow> string" where
  "upper s = map upper_char s"

text \<open>\<^verbatim>\<open>str(n)\<close> for a natural number and for an integer.\<close>

definition digit_char :: "nat \<Rightarrow> char" where
  "digit_char d = char_of (48 + d)"

fun str_nat :: "nat \<Rightarrow> string" where
  "str_nat n = (if n < 10 then [digit_char n] else str_nat (n div 10) @ [digit_char (n mod 10)])"

declare str_nat.simps [simp del]

definition str_int :: "int \<Rightarrow> string" where
  "str_int i = (if i < 0 then CHR ''-'' # str_nat (nat (- i)) else str_nat (nat i))"

text \<open>\<^verbatim>\<open>' '.join(xs)\<close>.\<close>

fun join_sp :: "string list \<Rightarrow> string" where
  "join_sp [] = []"
| "join_sp [x] = x"
| "join_sp (x # y # ys) = x @ CHR '' '' # join_sp (y # ys)"

subsection \<open>The grid model\<close>

text \<open>The dictionary \<^verbatim>\<open>directions\<close>.\<close>

definition directions :: "string \<Rightarrow> (int \<times> int) option" where
  "directions = map_of
     [(''N'', (-1, 0)), (''NE'', (-1, 1)), (''NW'', (-1, -1)),
      (''S'', (1, 0)), (''SE'', (1, 1)), (''SW'', (1, -1)),
      (''E'', (0, 1)), (''W'', (0, -1)), (''O'', (0, 0))]"

definition get_next_position :: "string \<Rightarrow> int \<Rightarrow> int \<Rightarrow> error + (int \<times> int)" where
  "get_next_position direction row col =
     (case directions (upper direction) of
        None \<Rightarrow> Inl (KeyError (upper direction))
      | Some (di, dj) \<Rightarrow> Inr (row + di, col + dj))"

definition is_valid_bound :: "int \<Rightarrow> int \<Rightarrow> int \<Rightarrow> int \<Rightarrow> bool" where
  "is_valid_bound row col final_rows final_cols =
     (0 \<le> row \<and> row < final_rows \<and> 0 \<le> col \<and> col < final_cols)"

definition manhattan_distance :: "int \<Rightarrow> int \<Rightarrow> int \<Rightarrow> int \<Rightarrow> int" where
  "manhattan_distance row col target_row target_col =
     \<bar>target_row - row\<bar> + \<bar>target_col - col\<bar>"

text \<open>
  \<^verbatim>\<open>xs[i]\<close> and \<^verbatim>\<open>graph[row][col]\<close>. An index outside \<open>0 \<le> i < len(xs)\<close> is the
  fault \<open>IndexError\<close>. (Python reads a negative index from the end of the list; the search
  never passes one: it reads the cell \<open>(0, 0)\<close> and cells that \<open>is_valid_bound\<close> accepted.)
\<close>

definition item_at :: "'a list \<Rightarrow> int \<Rightarrow> error + 'a" where
  "item_at xs i = (if 0 \<le> i \<and> i < int (length xs) then Inr (xs ! nat i) else Inl IndexError)"

definition cell_at :: "string list list \<Rightarrow> int \<Rightarrow> int \<Rightarrow> error + string" where
  "cell_at graph row col =
     (case item_at graph row of Inl e \<Rightarrow> Inl e | Inr line \<Rightarrow> item_at line col)"

subsection \<open>The depth-limited explorer\<close>

text \<open>
  The body of \<^verbatim>\<open>for count in range(1, max_depth + 1)\<close>, run over the list of the
  counts still to come. \<open>row\<close> and \<open>col\<close> are the stepping cursor, \<open>stack\<close> is the
  stack of the outer loop, its top at the head of the list.
\<close>

fun inner_loop ::
  "string list list \<Rightarrow> int \<Rightarrow> int \<Rightarrow> int \<Rightarrow> int \<Rightarrow> int \<Rightarrow> MazeNode \<Rightarrow> string \<Rightarrow> string
     \<Rightarrow> int list \<Rightarrow> int \<Rightarrow> int \<Rightarrow> MazeNode list \<Rightarrow> loop_result" where
  "inner_loop graph final_rows final_cols max_depth target_row target_col current
       cur_dir cur_color [] row col stack = Continue stack"
| "inner_loop graph final_rows final_cols max_depth target_row target_col current
       cur_dir cur_color (count # counts) row col stack =
     (case get_next_position cur_dir row col of
        Inl e \<Rightarrow> Raise e
      | Inr (next_row, next_col) \<Rightarrow>
          if \<not> is_valid_bound next_row next_col final_rows final_cols then Continue stack
          else
            (case cell_at graph next_row next_col of
               Inl e \<Rightarrow> Raise e
             | Inr next_cell \<Rightarrow>
                 if next_row = target_row \<and> next_col = target_col
                 then Found (join_sp (path current @ [str_int count @ cur_dir]))
                 else if take 1 next_cell \<noteq> cur_color
                         \<and> PairE next_row next_col \<notin> explored current
                         \<and> depth current < max_depth
                 then
                   (if manhattan_distance next_row next_col target_row target_col
                         \<le> max_depth - count
                    then
                      inner_loop graph final_rows final_cols max_depth target_row target_col
                        current cur_dir cur_color counts next_row next_col
                        (\<lparr>node_row = next_row, node_col = next_col,
                           explored = insert (PairE next_row next_col) (explored current),
                           path = path current @ [str_int count @ cur_dir],
                           depth = depth current + 1\<rparr> # stack)
                    else
                      inner_loop graph final_rows final_cols max_depth target_row target_col
                        current cur_dir cur_color counts next_row next_col stack)
                 else
                   inner_loop graph final_rows final_cols max_depth target_row target_col
                     current cur_dir cur_color counts next_row next_col stack))"

text \<open>
  The loop \<^verbatim>\<open>while stack:\<close>. Nothing in its text bounds the number of rounds, so it
  is a partial function: \<open>None\<close> stands for a run that never returns. A run that returns
  gives \<open>Inl\<close> of the fault raised, or \<open>Inr\<close> of the value returned (\<open>None\<close> for
  Python's \<^verbatim>\<open>None\<close>).
\<close>

partial_function (option) explore_stack ::
  "string list list \<Rightarrow> int \<Rightarrow> int \<Rightarrow> int \<Rightarrow> int \<Rightarrow> int \<Rightarrow> MazeNode list
     \<Rightarrow> (error + string option) option" where
  "explore_stack graph final_rows final_cols max_depth target_row target_col stack =
     (case stack of
        [] \<Rightarrow> Some (Inr None)
      | current # rest \<Rightarrow>
          (case cell_at graph (node_row current) (node_col current) of
             Inl e \<Rightarrow> Some (Inl e)
           | Inr cell \<Rightarrow>
               (case inner_loop graph final_rows final_cols max_depth target_row target_col
                       current (drop 2 cell) (take 1 cell) [1..max_depth]
                       (node_row current) (node_col current) rest of
                  Raise e \<Rightarrow> Some (Inl e)
                | Found final_path \<Rightarrow> Some (Inr (Some final_path))
                | Continue stack' \<Rightarrow>
                    explore_stack graph final_rows final_cols max_depth target_row target_col
                      stack')))"

declare explore_stack.simps [code]

text \<open>The stack before the first round: \<^verbatim>\<open>[MazeNode(0, 0, set((0, 0)), [], 1)]\<close>.\<close>

definition initial_stack :: "MazeNode list" where
  "initial_stack =
     [\<lparr>node_row = 0, node_col = 0, explored = set [IntE 0, IntE 0], path = [], depth = 1\<rparr>]"

definition explore_maze_depth_limited ::
  "string list list \<Rightarrow> int \<Rightarrow> int \<Rightarrow> int \<Rightarrow> int \<Rightarrow> int \<Rightarrow> (error + string option) option" where
  "explore_maze_depth_limited graph final_rows final_cols max_depth target_row target_col =
     explore_stack graph final_rows final_cols max_depth target_row target_col
       initial_stack"

subsection \<open>The iterative deepening driver\<close>

definition no_solution :: string where
  "no_solution = ''No solution found within the depth limit.''"

text \<open>\<^verbatim>\<open>if result:\<close> holds for a string that is not empty, and fails for \<^verbatim>\<open>None\<close>.\<close>

fun truthy :: "string option \<Rightarrow> bool" where
  "truthy None = False"
| "truthy (Some s) = (s \<noteq> [])"

text \<open>The loop \<^verbatim>\<open>while max_depth <= max_depth_limit\<close>.\<close>

function iddfs_loop ::
  "string list list \<Rightarrow> int \<Rightarrow> int \<Rightarrow> int \<Rightarrow> int \<Rightarrow> int \<Rightarrow> int \<Rightarrow> (error + string) option" where
  "iddfs_loop graph rows cols max_depth_limit target_row target_col max_depth =
     (if max_depth \<le> max_depth_limit
      then
        (case explore_maze_depth_limited graph rows cols max_depth target_row target_col of
           None \<Rightarrow> None
         | Some (Inl e) \<Rightarrow> Some (Inl e)
         | Some (Inr result) \<Rightarrow>
             if truthy result then Some (Inr (the result))
             else iddfs_loop graph rows cols max_depth_limit target_row target_col
                    (max_depth + 1))
      else Some (Inr no_solution))"
  by pat_completeness auto
termination
  by (relation "measure (\<lambda>(graph, rows, cols, max_depth_limit, target_row, target_col, max_depth).
        nat (max_depth_limit + 1 - max_depth))") auto

declare iddfs_loop.simps [simp del]

definition iterative_deepening_dfs ::
  "string list list \<Rightarrow> int \<Rightarrow> int \<Rightarrow> (error + string) option" where
  "iterative_deepening_dfs graph rows cols =
     iddfs_loop graph rows cols (rows * cols) (rows - 1) (cols - 1) 1"

definition solve_maze_from_file :: "string list list \<Rightarrow> int \<Rightarrow> int \<Rightarrow> (error + string) option" where
  "solve_maze_from_file graph rows cols = iterative_deepening_dfs graph rows cols"

subsection \<open>Well-formed grids and the replay of a path\<close>

text \<open>
  The direction of a cell token is what follows its first two characters, as the explorer
  reads it (\<^verbatim>\<open>graph[row][col][2:]\<close>); it is recognized when its upper-case form is a
  key of \<open>directions\<close>. A grid is well formed when it has \<open>rows \<ge> 1\<close> lines of
  \<open>cols \<ge> 1\<close> tokens each and every token carries a recognized direction.
\<close>

definition recognized :: "string \<Rightarrow> bool" where
  "recognized direction = (directions (upper direction) \<noteq> None)"

definition grid_shape :: "string list list \<Rightarrow> int \<Rightarrow> int \<Rightarrow> bool" where
  "grid_shape graph rows cols =
     (1 \<le> rows \<and> 1 \<le> cols \<and> int (length graph) = rows
        \<and> list_all (\<lambda>line. int (length line) = cols) graph)"

definition well_formed :: "string list list \<Rightarrow> int \<Rightarrow> int \<Rightarrow> bool" where
  "well_formed graph rows cols =
     (grid_shape graph rows cols
        \<and> list_all (\<lambda>line. list_all (\<lambda>cell. recognized (drop 2 cell)) line) graph)"

text \<open>
  Reading a path string back: \<open>split_sp\<close> is \<^verbatim>\<open>s.split(' ')\<close>, and a label
  \<^verbatim>\<open><count><dir>\<close> is its leading decimal digits and the rest.
\<close>

fun split_sp :: "string \<Rightarrow> string list" where
  "split_sp [] = [[]]"
| "split_sp (c # cs) =
     (if c = CHR '' '' then [] # split_sp cs
      else (case split_sp cs of [] \<Rightarrow> [[c]] | w # ws \<Rightarrow> (c # w) # ws))"

definition is_digit :: "char \<Rightarrow> bool" where
  "is_digit c = (48 \<le> (of_char c :: nat) \<and> (of_char c :: nat) \<le> 57)"

definition nat_of_digits :: "string \<Rightarrow> nat" where
  "nat_of_digits ds = foldl (\<lambda>a c. 10 * a + ((of_char c :: nat) - 48)) 0 ds"

definition parse_label :: "string \<Rightarrow> nat \<times> string" where
  "parse_label l = (nat_of_digits (takeWhile is_digit l), dropWhile is_digit l)"

definition parse_path :: "string \<Rightarrow> (nat \<times> string) list" where
  "parse_path s = map parse_label (split_sp s)"

text \<open>
  The cells that \<open>n\<close> unit steps of \<open>(di, dj)\<close> from \<open>(row, col)\<close> go through, in
  order; the last one is where the run lands.
\<close>

definition run_cells :: "int \<times> int \<Rightarrow> int \<times> int \<Rightarrow> nat \<Rightarrow> (int \<times> int) list" where
  "run_cells p d n =
     map (\<lambda>k. (fst p + int k * fst d, snd p + int k * snd d)) [1..<Suc n]"

text \<open>
  The replay of a list of labels from a position: for each label the cell where its run
  starts and the cells of the run. A label whose direction is not recognized cannot be
  replayed.
\<close>

fun replay :: "int \<times> int \<Rightarrow> (nat \<times> string) list \<Rightarrow> ((int \<times> int) \<times> (int \<times> int) list) list option" where
  "replay p [] = Some []"
| "replay p ((n, d) # ls) =
     (case directions (upper d) of
        None \<Rightarrow> None
      | Some delta \<Rightarrow>
          (case replay (last (p # run_cells p delta n)) ls of
             None \<Rightarrow> None
           | Some steps \<Rightarrow> Some ((p, run_cells p delta n) # steps)))"

definition landing :: "(int \<times> int) \<times> (int \<times> int) list \<Rightarrow> int \<times> int" where
  "landing step = last (fst step # snd step)"

text \<open>Every position of a replay from the origin: the origin and the cells of each run.\<close>

definition traversed :: "((int \<times> int) \<times> (int \<times> int) list) list \<Rightarrow> (int \<times> int) list" where
  "traversed steps = (0, 0) # concat (map snd steps)"

definition color_at :: "string list list \<Rightarrow> int \<times> int \<Rightarrow> string option" where
  "color_at graph p =
     (case cell_at graph (fst p) (snd p) of Inl e \<Rightarrow> None | Inr cell \<Rightarrow> Some (take 1 cell))"

text \<open>A position is in the grid when \<open>is_valid_bound\<close> accepts it.\<close>

definition in_grid :: "int \<Rightarrow> int \<Rightarrow> int \<times> int \<Rightarrow> bool" where
  "in_grid rows cols p = is_valid_bound (fst p) (snd p) rows cols"

text \<open>
  A label marks a colour change when the cell where its run starts and the cell where it
  lands both exist and carry different colours (the first character of the token, as the
  explorer reads it).
\<close>

definition color_change :: "string list list \<Rightarrow> (int \<times> int) \<times> (int \<times> int) list \<Rightarrow> bool" where
  "color_change graph step =
     (case (color_at graph (fst step), color_at graph (landing step)) of
        (Some a, Some b) \<Rightarrow> a \<noteq> b
      | _ \<Rightarrow> False)"

section \<open>Invariants of the search\<close>

text \<open>
  The label \<^verbatim>\<open>f"{count}{cur_dir}"\<close> for a count of at least 1, and the position reached
  from \<open>p\<close> by \<open>k\<close> unit steps of \<open>d\<close>.
\<close>

definition label_str :: "nat \<times> string \<Rightarrow> string" where
  "label_str l = str_nat (fst l) @ snd l"

definition shift :: "int \<times> int \<Rightarrow> int \<times> int \<Rightarrow> int \<Rightarrow> int \<times> int" where
  "shift p d k = (fst p + k * fst d, snd p + k * snd d)"

text \<open>
  What holds of every node on the stack: its path is a list of labels whose replay from the
  origin ends on the node, through cells of the grid only; its explored set is the integer 0
  of the initial set together with the landing cells of the labels, which are pairwise
  distinct and none of which is the target; and every label marks a colour change.
\<close>

definition node_inv ::
  "string list list \<Rightarrow> int \<Rightarrow> int \<Rightarrow> int \<Rightarrow> int \<Rightarrow> MazeNode \<Rightarrow> bool" where
  "node_inv graph rows cols tr tc node =
     (\<exists>ls steps.
        path node = map label_str ls
      \<and> replay (0, 0) ls = Some steps
      \<and> last (traversed steps) = (node_row node, node_col node)
      \<and> (\<forall>p\<in>set (concat (map snd steps)). in_grid rows cols p)
      \<and> explored node = insert (IntE 0) ((\<lambda>p. PairE (fst p) (snd p)) ` set (map landing steps))
      \<and> distinct (map landing steps)
      \<and> (tr, tc) \<notin> set (map landing steps)
      \<and> (\<forall>st\<in>set steps. color_change graph st))"

text \<open>What holds of a string the explorer returns.\<close>

definition path_ok ::
  "string list list \<Rightarrow> int \<Rightarrow> int \<Rightarrow> int \<Rightarrow> int \<Rightarrow> string \<Rightarrow> bool" where
  "path_ok graph rows cols tr tc s =
     (\<exists>ls steps.
        ls \<noteq> []
      \<and> s = join_sp (map label_str ls)
      \<and> replay (0, 0) ls = Some steps
      \<and> last (traversed steps) = (tr, tc)
      \<and> (\<forall>p\<in>set (concat (map snd steps)). in_grid rows cols p)
      \<and> concat (map snd steps) \<noteq> []
      \<and> distinct (map landing steps)
      \<and> (\<forall>st\<in>set (butlast steps). color_change graph st))"

definition result_ok ::
  "string list list \<Rightarrow> int \<Rightarrow> int \<Rightarrow> int \<Rightarrow> int \<Rightarrow> loop_result \<Rightarrow> bool" where
  "result_ok graph rows cols tr tc res =
     (case res of
        Raise e \<Rightarrow> True
      | Found s \<Rightarrow> path_ok graph rows cols tr tc s
      | Continue stack' \<Rightarrow> (\<forall>n\<in>set stack'. node_inv graph rows cols tr tc n))"

text \<open>
  The measure of the stack loop: a node of depth \<open>dp\<close> weighs
  \<open>(max_depth + 1) ^ (max_depth - dp)\<close>, more than the \<open>max_depth\<close> nodes, one deeper,
  that a round can push in its place.
\<close>

definition weight :: "int \<Rightarrow> int \<Rightarrow> nat" where
  "weight md dp = (nat md + 1) ^ nat (md - dp)"

definition stack_weight :: "int \<Rightarrow> MazeNode list \<Rightarrow> nat" where
  "stack_weight md stack = sum_list (map (\<lambda>n. weight md (depth n)) stack)"

definition child_weight :: "int \<Rightarrow> MazeNode \<Rightarrow> nat" where
  "child_weight md current = (if depth current < md then weight md (depth current + 1) else 0)"

definition outcome_ok ::
  "string list list \<Rightarrow> int \<Rightarrow> int \<Rightarrow> int \<Rightarrow> int \<Rightarrow> error + string option \<Rightarrow> bool" where
  "outcome_ok graph rows cols tr tc r =
     (case r of Inr (Some s) \<Rightarrow> path_ok graph rows cols tr tc s | _ \<Rightarrow> True)"

text \<open>The invariant for the reads of the grid: every node of the stack is in the grid.\<close>

definition node_in_grid :: "int \<Rightarrow> int \<Rightarrow> MazeNode \<Rightarrow> bool" where
  "node_in_grid rows cols n = is_valid_bound (node_row n) (node_col n) rows cols"

definition safe_result :: "int \<Rightarrow> int \<Rightarrow> string \<Rightarrow> loop_result \<Rightarrow> bool" where
  "safe_result rows cols d res =
     (case res of
        Raise e \<Rightarrow> e \<noteq> IndexError \<and> \<not> recognized d
      | Found s \<Rightarrow> True
      | Continue stack' \<Rightarrow> (\<forall>n\<in>set stack'. node_in_grid rows cols n))"

section \<open>Lemmas\<close>

lemma digit_char_is_digit: "d < 10 \<Longrightarrow> is_digit (digit_char d)"
  by (simp add: is_digit_def digit_char_def)

lemma digit_char_val: "d < 10 \<Longrightarrow> (of_char (digit_char d) :: nat) - 48 = d"
  by (simp add: digit_char_def)

lemma str_nat_all_digits: "c \<in> set (str_nat n) \<Longrightarrow> is_digit c"
proof (induction n arbitrary: c rule: str_nat.induct)
  case (1 n)
  show ?case
  proof (cases "n < 10")
    case True
    with "1.prems" show ?thesis
      by (simp add: str_nat.simps [of n] digit_char_is_digit)
  next
    case False
    with "1.prems" have "c \<in> set (str_nat (n div 10)) \<or> c = digit_char (n mod 10)"
      by (auto simp: str_nat.simps [of n])
    then show ?thesis
      using "1.IH" [OF False] by (auto simp: digit_char_is_digit)
  qed
qed


lemma nat_of_digits_snoc:
  "nat_of_digits (ds @ [c]) = 10 * nat_of_digits ds + ((of_char c :: nat) - 48)"
  by (simp add: nat_of_digits_def)

lemma nat_of_digits_str_nat: "nat_of_digits (str_nat n) = n"
proof (induction n rule: str_nat.induct)
  case (1 n)
  show ?case
  proof (cases "n < 10")
    case True
    then show ?thesis
      by (simp add: str_nat.simps [of n] nat_of_digits_def digit_char_val)
  next
    case False
    then show ?thesis
      using "1.IH" by (simp add: str_nat.simps [of n] nat_of_digits_snoc digit_char_val)
  qed
qed

lemma directions_keys:
  "directions k = Some v \<Longrightarrow> k \<in> {''N'', ''NE'', ''NW'', ''S'', ''SE'', ''SW'', ''E'', ''W'', ''O''}"
  by (simp add: directions_def split: if_splits)

lemma upper_char_fixed: "is_digit c \<or> c = CHR '' '' \<Longrightarrow> upper_char c = c"
  by (auto simp: upper_char_def is_digit_def)

lemma recognized_chars:
  assumes "recognized d" and "c \<in> set d"
  shows "\<not> is_digit c \<and> c \<noteq> CHR '' ''"
proof
  obtain v where v: "directions (upper d) = Some v"
    using assms(1) by (auto simp: recognized_def)
  have mem: "upper_char c \<in> set (upper d)"
    using assms(2) by (simp add: upper_def)
  have letters: "set (upper d) \<subseteq> {CHR ''N'', CHR ''E'', CHR ''W'', CHR ''S'', CHR ''O''}"
    using directions_keys [OF v] by auto
  show "\<not> is_digit c"
  proof
    assume "is_digit c"
    then have "upper_char c = c" by (simp add: upper_char_fixed)
    with mem letters have "c \<in> {CHR ''N'', CHR ''E'', CHR ''W'', CHR ''S'', CHR ''O''}" by auto
    with \<open>is_digit c\<close> show False by (auto simp: is_digit_def)
  qed
  show "c \<noteq> CHR '' ''"
  proof
    assume "c = CHR '' ''"
    then have "upper_char c = c" by (simp add: upper_char_fixed)
    with mem letters have "c \<in> {CHR ''N'', CHR ''E'', CHR ''W'', CHR ''S'', CHR ''O''}" by auto
    with \<open>c = CHR '' ''\<close> show False by auto
  qed
qed

lemma recognized_not_empty: "recognized d \<Longrightarrow> d \<noteq> []"
  by (auto simp: recognized_def upper_def directions_def)

lemma parse_label_str:
  assumes "recognized d"
  shows "parse_label (label_str (n, d)) = (n, d)"
proof -
  have d: "\<forall>c\<in>set d. \<not> is_digit c" using recognized_chars [OF assms] by blast
  have "d \<noteq> []" using assms by (rule recognized_not_empty)
  then obtain c cs where dc: "d = c # cs" by (cases d) auto
  then have nd: "\<not> is_digit c" using d by simp
  have tw: "takeWhile is_digit (str_nat n @ d) = str_nat n"
    using nd dc str_nat_all_digits [of _ n] by simp
  have dw: "dropWhile is_digit (str_nat n @ d) = d"
    using nd dc str_nat_all_digits [of _ n] by simp
  show ?thesis
    by (simp add: parse_label_def label_str_def tw dw nat_of_digits_str_nat)
qed

lemma label_str_no_space:
  assumes "recognized d"
  shows "CHR '' '' \<notin> set (label_str (n, d))"
proof
  assume "CHR '' '' \<in> set (label_str (n, d))"
  then have "CHR '' '' \<in> set (str_nat n) \<or> CHR '' '' \<in> set d"
    by (simp add: label_str_def)
  then show False
  proof
    assume "CHR '' '' \<in> set (str_nat n)"
    then have "is_digit (CHR '' '')" by (rule str_nat_all_digits)
    then show False by (simp add: is_digit_def)
  next
    assume "CHR '' '' \<in> set d"
    with recognized_chars [OF assms] show False by blast
  qed
qed

lemma split_sp_no_space: "CHR '' '' \<notin> set w \<Longrightarrow> split_sp w = [w]"
  by (induction w) auto

lemma split_sp_append:
  "CHR '' '' \<notin> set w \<Longrightarrow> split_sp (w @ CHR '' '' # rest) = w # split_sp rest"
  by (induction w) auto

lemma split_sp_join_sp:
  "ws \<noteq> [] \<Longrightarrow> \<forall>w\<in>set ws. CHR '' '' \<notin> set w \<Longrightarrow> split_sp (join_sp ws) = ws"
proof (induction ws rule: join_sp.induct)
  case 1
  then show ?case by simp
next
  case (2 x)
  then show ?case by (simp add: split_sp_no_space)
next
  case (3 x y ys)
  then show ?case by (simp add: split_sp_append)
qed

lemma parse_path_join:
  assumes "ls \<noteq> []" and "\<forall>l\<in>set ls. recognized (snd l)"
  shows "parse_path (join_sp (map label_str ls)) = ls"
proof -
  have ns: "\<forall>w\<in>set (map label_str ls). CHR '' '' \<notin> set w"
    using assms(2) label_str_no_space by (metis (no_types, lifting) imageE list.set_map prod.collapse)
  have "split_sp (join_sp (map label_str ls)) = map label_str ls"
    using assms(1) ns by (intro split_sp_join_sp) auto
  moreover have "map parse_label (map label_str ls) = ls"
    using assms(2) by (induction ls) (auto simp: parse_label_str)
  ultimately show ?thesis by (simp add: parse_path_def)
qed

lemma shift_0 [simp]: "shift p d 0 = p"
  by (simp add: shift_def)

lemma run_cells_shift: "run_cells p d n = map (\<lambda>k. shift p d (int k)) [1..<Suc n]"
  by (simp add: run_cells_def shift_def)

lemma run_cells_0 [simp]: "run_cells p d 0 = []"
  by (simp add: run_cells_def)

lemma set_run_cells: "set (run_cells p d n) = (\<lambda>k. shift p d (int k)) ` {1..n}"
proof -
  have "set [1..<Suc n] = {1..n}" by auto
  then show ?thesis by (simp only: run_cells_shift set_map)
qed

lemma last_run_cells: "last (p # run_cells p d n) = shift p d (int n)"
proof (cases n)
  case 0
  then show ?thesis by simp
next
  case (Suc m)
  then show ?thesis by (simp add: run_cells_shift last_map)
qed

lemma landing_run: "landing (p, run_cells p d n) = shift p d (int n)"
  by (simp add: landing_def last_run_cells del: last.simps)

lemma last_Cons_append: "last (p # xs @ ys) = last (last (p # xs) # ys)"
  by (cases ys) auto

lemma replay_recognized:
  "replay p ls = Some steps \<Longrightarrow> l \<in> set ls \<Longrightarrow> recognized (snd l)"
proof (induction ls arbitrary: p steps)
  case Nil
  then show ?case by simp
next
  case (Cons a ls)
  obtain n d where a: "a = (n, d)" by (cases a)
  from Cons.prems(1) a obtain delta steps' where
    d: "directions (upper d) = Some delta" and
    r: "replay (last (p # run_cells p delta n)) ls = Some steps'"
    by (auto split: option.splits)
  show ?case
  proof (cases "l = a")
    case True
    then show ?thesis using a d by (simp add: recognized_def)
  next
    case False
    then have "l \<in> set ls" using Cons.prems(2) by simp
    then show ?thesis using Cons.IH [OF r] by simp
  qed
qed

lemma replay_snoc:
  "replay p ls = Some steps \<Longrightarrow> directions (upper d) = Some delta \<Longrightarrow>
   replay p (ls @ [(n, d)])
     = Some (steps @ [(last (p # concat (map snd steps)),
                       run_cells (last (p # concat (map snd steps))) delta n)])"
proof (induction ls arbitrary: p steps)
  case Nil
  then show ?case by simp
next
  case (Cons a ls)
  obtain m e where a: "a = (m, e)" by (cases a)
  from Cons.prems(1) a obtain da steps' where
    da: "directions (upper e) = Some da" and
    r: "replay (last (p # run_cells p da m)) ls = Some steps'" and
    st: "steps = (p, run_cells p da m) # steps'"
    by (auto split: option.splits)
  have "last (p # concat (map snd steps))
          = last (last (p # run_cells p da m) # concat (map snd steps'))"
    by (simp only: st list.map snd_conv concat.simps last_Cons_append)
  then show ?case
    using Cons.IH [OF r Cons.prems(2)] a da st by simp
qed

lemma last_traversed_snoc:
  "last (traversed (steps @ [(q, cells)])) = last (last (traversed steps) # cells)"
  by (simp add: traversed_def last_Cons_append del: last.simps)

lemma str_int_label: "1 \<le> c \<Longrightarrow> str_int c @ d = label_str (nat c, d)"
  by (simp add: str_int_def label_str_def)

lemma node_inv_extend:
  assumes inv: "node_inv graph rows cols tr tc current"
    and cell: "cell_at graph (node_row current) (node_col current) = Inr cell"
    and dir: "directions (upper d) = Some delta"
    and c: "1 \<le> c"
    and run: "\<forall>k\<in>{1..nat c}. in_grid rows cols (shift (node_row current, node_col current) delta (int k))"
    and nxt: "(nr, nc) = shift (node_row current, node_col current) delta c"
    and nt: "\<not> (nr = tr \<and> nc = tc)"
    and ncell: "cell_at graph nr nc = Inr next_cell"
    and col: "take 1 next_cell \<noteq> take 1 cell"
    and new: "PairE nr nc \<notin> explored current"
  shows "node_inv graph rows cols tr tc
           \<lparr>node_row = nr, node_col = nc,
              explored = insert (PairE nr nc) (explored current),
              path = path current @ [str_int c @ d], depth = dp\<rparr>"
proof -
  let ?q = "(node_row current, node_col current)"
  from inv obtain ls steps where
    p: "path current = map label_str ls" and
    r: "replay (0, 0) ls = Some steps" and
    pos: "last (traversed steps) = ?q" and
    inb: "\<forall>p\<in>set (concat (map snd steps)). in_grid rows cols p" and
    ex: "explored current = insert (IntE 0) ((\<lambda>p. PairE (fst p) (snd p)) ` set (map landing steps))" and
    dis: "distinct (map landing steps)" and
    tgt: "(tr, tc) \<notin> set (map landing steps)" and
    cc: "\<forall>st\<in>set steps. color_change graph st"
    unfolding node_inv_def by blast
  let ?st = "(?q, run_cells ?q delta (nat c))"
  let ?ls = "ls @ [(nat c, d)]"
  let ?steps = "steps @ [?st]"
  have q: "last ((0, 0) # concat (map snd steps)) = ?q"
    using pos by (simp add: traversed_def)
  have land: "landing ?st = (nr, nc)"
    using nxt c by (simp add: landing_run)
  have 1: "path current @ [str_int c @ d] = map label_str ?ls"
    using p c by (simp add: str_int_label)
  have 2: "replay (0, 0) ?ls = Some ?steps"
    using replay_snoc [OF r dir, of "nat c"] q by simp
  have 3: "last (traversed ?steps) = (nr, nc)"
    using land pos by (simp add: last_traversed_snoc landing_def)
  have 4: "\<forall>p\<in>set (concat (map snd ?steps)). in_grid rows cols p"
    using inb run by (auto simp: set_run_cells)
  have 5: "insert (PairE nr nc) (explored current)
             = insert (IntE 0) ((\<lambda>p. PairE (fst p) (snd p)) ` set (map landing ?steps))"
    using ex land by auto
  have "(nr, nc) \<notin> set (map landing steps)"
  proof
    assume "(nr, nc) \<in> set (map landing steps)"
    then have "PairE (fst (nr, nc)) (snd (nr, nc))
                 \<in> (\<lambda>p. PairE (fst p) (snd p)) ` set (map landing steps)"
      by (rule imageI)
    then have "PairE nr nc \<in> (\<lambda>p. PairE (fst p) (snd p)) ` set (map landing steps)"
      by simp
    with ex new show False by simp
  qed
  then have 6: "distinct (map landing ?steps)"
    using dis land by simp
  have 7: "(tr, tc) \<notin> set (map landing ?steps)"
    using tgt land nt by auto
  have "color_change graph ?st"
    using cell ncell col land by (simp add: color_change_def color_at_def)
  then have 8: "\<forall>st\<in>set ?steps. color_change graph st"
    using cc by simp
  show ?thesis
    unfolding node_inv_def
    apply (rule exI [of _ ?ls], rule exI [of _ ?steps])
    using 1 2 3 4 5 6 7 8 by simp
qed

lemma path_ok_final:
  assumes inv: "node_inv graph rows cols tr tc current"
    and dir: "directions (upper d) = Some delta"
    and c: "1 \<le> c"
    and run: "\<forall>k\<in>{1..nat c}. in_grid rows cols (shift (node_row current, node_col current) delta (int k))"
    and nxt: "(tr, tc) = shift (node_row current, node_col current) delta c"
  shows "path_ok graph rows cols tr tc (join_sp (path current @ [str_int c @ d]))"
proof -
  let ?q = "(node_row current, node_col current)"
  from inv obtain ls steps where
    p: "path current = map label_str ls" and
    r: "replay (0, 0) ls = Some steps" and
    pos: "last (traversed steps) = ?q" and
    inb: "\<forall>p\<in>set (concat (map snd steps)). in_grid rows cols p" and
    dis: "distinct (map landing steps)" and
    tgt: "(tr, tc) \<notin> set (map landing steps)" and
    cc: "\<forall>st\<in>set steps. color_change graph st"
    unfolding node_inv_def by blast
  let ?st = "(?q, run_cells ?q delta (nat c))"
  let ?ls = "ls @ [(nat c, d)]"
  let ?steps = "steps @ [?st]"
  have q: "last ((0, 0) # concat (map snd steps)) = ?q"
    using pos by (simp add: traversed_def)
  have land: "landing ?st = (tr, tc)"
    using nxt c by (simp add: landing_run)
  have 1: "path current @ [str_int c @ d] = map label_str ?ls"
    using p c by (simp add: str_int_label)
  have 2: "replay (0, 0) ?ls = Some ?steps"
    using replay_snoc [OF r dir, of "nat c"] q by simp
  have 3: "last (traversed ?steps) = (tr, tc)"
    using land pos by (simp add: last_traversed_snoc landing_def)
  have 4: "\<forall>p\<in>set (concat (map snd ?steps)). in_grid rows cols p"
    using inb run by (auto simp: set_run_cells)
  have "run_cells ?q delta (nat c) \<noteq> []"
    using c by (simp add: run_cells_shift)
  then have 5: "concat (map snd ?steps) \<noteq> []" by simp
  have 6: "distinct (map landing ?steps)"
    using dis land tgt by simp
  have 8: "\<forall>st\<in>set (butlast ?steps). color_change graph st"
    using cc by simp
  show ?thesis
    unfolding path_ok_def
    apply (rule exI [of _ ?ls], rule exI [of _ ?steps])
    using 1 2 3 4 5 6 8 by simp
qed

lemma upto_Cons_eq:
  "count # counts = [c..md] \<Longrightarrow> count = c \<and> counts = [c + 1..md] \<and> c \<le> md"
  using upto.simps [of c md] by (auto split: if_splits)

lemma inner_loop_inv:
  assumes inv: "node_inv graph rows cols tr tc current"
    and cell: "cell_at graph (node_row current) (node_col current) = Inr cell"
    and dir: "directions (upper d) = Some delta"
  shows "counts = [c..md] \<Longrightarrow> 1 \<le> c
     \<Longrightarrow> (row, col) = shift (node_row current, node_col current) delta (c - 1)
     \<Longrightarrow> \<forall>k\<in>{1..nat (c - 1)}.
           in_grid rows cols (shift (node_row current, node_col current) delta (int k))
     \<Longrightarrow> \<forall>n\<in>set stack. node_inv graph rows cols tr tc n
     \<Longrightarrow> result_ok graph rows cols tr tc
           (inner_loop graph rows cols md tr tc current d (take 1 cell) counts row col stack)"
proof (induction counts arbitrary: c row col stack)
  case Nil
  then show ?case by (simp add: result_ok_def)
next
  case (Cons count counts')
  let ?q = "(node_row current, node_col current)"
  obtain di dj where delta: "delta = (di, dj)" by (cases delta)
  from upto_Cons_eq [OF Cons.prems(1)]
  have count: "count = c" and rest: "counts' = [c + 1..md]" by simp_all
  define nr where "nr = row + di"
  define nc where "nc = col + dj"
  have gnp: "get_next_position d row col = Inr (nr, nc)"
    by (simp add: get_next_position_def dir delta nr_def nc_def)
  have nxt: "(nr, nc) = shift ?q delta c"
    using Cons.prems(3) by (simp add: shift_def delta nr_def nc_def algebra_simps)
  show ?case
  proof (cases "is_valid_bound nr nc rows cols")
    case False
    then show ?thesis
      using Cons.prems(5) by (simp add: gnp result_ok_def)
  next
    case True
    have run: "\<forall>k\<in>{1..nat c}. in_grid rows cols (shift ?q delta (int k))"
    proof
      fix k assume k: "k \<in> {1..nat c}"
      show "in_grid rows cols (shift ?q delta (int k))"
      proof (cases "k = nat c")
        case True
        then have "shift ?q delta (int k) = (nr, nc)"
          using nxt Cons.prems(2) by simp
        then show ?thesis
          using \<open>is_valid_bound nr nc rows cols\<close> by (simp add: in_grid_def)
      next
        case False
        then have "k \<in> {1..nat (c - 1)}" using k by auto
        then show ?thesis using Cons.prems(4) by blast
      qed
    qed
    have run': "\<forall>k\<in>{1..nat (c + 1 - 1)}. in_grid rows cols (shift ?q delta (int k))"
      using run by simp
    have nxt': "(nr, nc) = shift ?q delta (c + 1 - 1)"
      using nxt by simp
    have c1: "1 \<le> c + 1" using Cons.prems(2) by simp
    note IH = Cons.IH [OF rest c1 nxt' run']
    show ?thesis
    proof (cases "cell_at graph nr nc")
      case (Inl e)
      then show ?thesis
        by (simp add: gnp True result_ok_def)
    next
      case (Inr next_cell)
      show ?thesis
      proof (cases "nr = tr \<and> nc = tc")
        case True
        then have "(tr, tc) = shift ?q delta c" using nxt by simp
        from path_ok_final [OF inv dir Cons.prems(2) run this]
        show ?thesis
          using True Inr \<open>is_valid_bound nr nc rows cols\<close>
          by (simp add: gnp result_ok_def count)
      next
        case False
        show ?thesis
        proof (cases "take 1 next_cell \<noteq> take 1 cell
                        \<and> PairE nr nc \<notin> explored current \<and> depth current < md")
          case br: True
          let ?node = "\<lparr>node_row = nr, node_col = nc,
                         explored = insert (PairE nr nc) (explored current),
                         path = path current @ [str_int c @ d],
                         depth = depth current + 1\<rparr>"
          have ninv: "node_inv graph rows cols tr tc ?node"
            using node_inv_extend [OF inv cell dir Cons.prems(2) run nxt False Inr] br
            by blast
          show ?thesis
          proof (cases "manhattan_distance nr nc tr tc \<le> md - c")
            case True
            have "\<forall>n\<in>set (?node # stack). node_inv graph rows cols tr tc n"
              using ninv Cons.prems(5) by simp
            from IH [OF this] show ?thesis
              using True br False Inr \<open>is_valid_bound nr nc rows cols\<close>
              by (auto simp: gnp count)
          next
            case nm: False
            from IH [OF Cons.prems(5)] show ?thesis
              using nm br False Inr \<open>is_valid_bound nr nc rows cols\<close>
              by (auto simp: gnp count)
          qed
        next
          case nb: False
          from IH [OF Cons.prems(5)] show ?thesis
            using nb False Inr \<open>is_valid_bound nr nc rows cols\<close>
            by (auto simp: gnp count)
        qed
      qed
    qed
  qed
qed

lemma initial_stack_inv: "\<forall>n\<in>set initial_stack. node_inv graph rows cols tr tc n"
proof -
  have "node_inv graph rows cols tr tc
          \<lparr>node_row = 0, node_col = 0, explored = set [IntE 0, IntE 0], path = [], depth = 1\<rparr>"
    unfolding node_inv_def
    by (rule exI [of _ "[]"], rule exI [of _ "[]"]) (simp add: traversed_def)
  then show ?thesis by (simp add: initial_stack_def)
qed

lemma pop_inv:
  assumes inv: "node_inv graph rows cols tr tc current"
    and rest: "\<forall>n\<in>set rest. node_inv graph rows cols tr tc n"
    and cell: "cell_at graph (node_row current) (node_col current) = Inr cell"
  shows "result_ok graph rows cols tr tc
           (inner_loop graph rows cols md tr tc current (drop 2 cell) (take 1 cell) [1..md]
              (node_row current) (node_col current) rest)"
proof (cases "directions (upper (drop 2 cell))")
  case None
  show ?thesis
  proof (cases "[1..md]")
    case Nil
    then show ?thesis using rest by (simp add: result_ok_def)
  next
    case (Cons count counts)
    then show ?thesis
      by (simp add: get_next_position_def None result_ok_def)
  qed
next
  case (Some delta)
  show ?thesis
    by (rule inner_loop_inv [OF inv cell Some refl _ _ _ rest]) simp_all
qed

lemma stack_weight_Cons [simp]:
  "stack_weight md (n # stack) = weight md (depth n) + stack_weight md stack"
  by (simp add: stack_weight_def)

lemma inner_loop_weight:
  "inner_loop graph fr fc md tr tc current d color counts row col stack = Continue stack'
     \<Longrightarrow> stack_weight md stack' \<le> stack_weight md stack + length counts * child_weight md current"
proof (induction counts arbitrary: row col stack)
  case Nil
  then show ?case by simp
next
  case (Cons count counts)
  let ?w = "child_weight md current"
  from Cons.prems have
    "stack' = stack
     \<or> (\<exists>nr nc. inner_loop graph fr fc md tr tc current d color counts nr nc stack
                    = Continue stack')
     \<or> (\<exists>nr nc node. depth current < md \<and> depth node = depth current + 1
            \<and> inner_loop graph fr fc md tr tc current d color counts nr nc (node # stack)
                 = Continue stack')"
    by (simp split: sum.splits prod.splits if_splits) force+
  then consider (brk) "stack' = stack"
    | (same) nr nc where
        "inner_loop graph fr fc md tr tc current d color counts nr nc stack = Continue stack'"
    | (push) nr nc node where "depth current < md" "depth node = depth current + 1"
        "inner_loop graph fr fc md tr tc current d color counts nr nc (node # stack)
           = Continue stack'"
    by blast
  then show ?case
  proof cases
    case brk
    then show ?thesis by simp
  next
    case same
    from Cons.IH [OF this] show ?thesis by simp
  next
    case push
    from Cons.IH [OF push(3)] push(1,2) show ?thesis
      by (simp add: child_weight_def)
  qed
qed

lemma pop_weight:
  assumes "inner_loop graph fr fc md tr tc current d color [1..md] row col rest = Continue stack'"
  shows "stack_weight md stack' < stack_weight md (current # rest)"
proof -
  have le: "stack_weight md stack' \<le> stack_weight md rest + nat md * child_weight md current"
    using inner_loop_weight [OF assms] by simp
  have "nat md * child_weight md current < weight md (depth current)"
  proof (cases "depth current < md")
    case True
    then have "nat (md - depth current) = Suc (nat (md - (depth current + 1)))" by simp
    then have "weight md (depth current) = (nat md + 1) * weight md (depth current + 1)"
      by (simp add: weight_def)
    moreover have "0 < weight md (depth current + 1)" by (simp add: weight_def)
    ultimately show ?thesis using True by (simp add: child_weight_def)
  next
    case False
    then show ?thesis by (simp add: child_weight_def weight_def)
  qed
  with le show ?thesis by simp
qed

lemma explore_stack_Nil:
  "explore_stack graph fr fc md tr tc [] = Some (Inr None)"
  by (subst explore_stack.simps) simp

lemma explore_stack_Cons:
  "explore_stack graph fr fc md tr tc (current # rest) =
     (case cell_at graph (node_row current) (node_col current) of
        Inl e \<Rightarrow> Some (Inl e)
      | Inr cell \<Rightarrow>
          (case inner_loop graph fr fc md tr tc current (drop 2 cell) (take 1 cell) [1..md]
                  (node_row current) (node_col current) rest of
             Raise e \<Rightarrow> Some (Inl e)
           | Found final_path \<Rightarrow> Some (Inr (Some final_path))
           | Continue stack' \<Rightarrow> explore_stack graph fr fc md tr tc stack'))"
  by (subst explore_stack.simps) simp

lemma explore_stack_induct [case_names pop]:
  assumes step: "\<And>stack.
     (\<And>current rest cell stack'.
         stack = current # rest
         \<Longrightarrow> cell_at graph (node_row current) (node_col current) = Inr cell
         \<Longrightarrow> inner_loop graph fr fc md tr tc current (drop 2 cell) (take 1 cell) [1..md]
               (node_row current) (node_col current) rest = Continue stack'
         \<Longrightarrow> P stack')
     \<Longrightarrow> P stack"
  shows "P stack"
proof (induction "stack_weight md stack" arbitrary: stack rule: less_induct)
  case less
  show ?case
  proof (rule step)
    fix current rest cell stack'
    assume "stack = current # rest"
      and "inner_loop graph fr fc md tr tc current (drop 2 cell) (take 1 cell) [1..md]
             (node_row current) (node_col current) rest = Continue stack'"
    then have "stack_weight md stack' < stack_weight md stack"
      using pop_weight by blast
    then show "P stack'" by (rule less)
  qed
qed

lemma explore_stack_terminates:
  "\<exists>r. explore_stack graph fr fc md tr tc stack = Some r"
proof (induction stack rule: explore_stack_induct [where graph = graph and fr = fr and fc = fc
          and md = md and tr = tr and tc = tc])
  case (pop stack)
  show ?case
  proof (cases stack)
    case Nil
    then show ?thesis by (simp add: explore_stack_Nil)
  next
    case (Cons current rest)
    show ?thesis
    proof (cases "cell_at graph (node_row current) (node_col current)")
      case (Inl e)
      with Cons show ?thesis by (simp add: explore_stack_Cons)
    next
      case (Inr cell)
      show ?thesis
      proof (cases "inner_loop graph fr fc md tr tc current (drop 2 cell) (take 1 cell) [1..md]
                      (node_row current) (node_col current) rest")
        case (Raise e)
        with Cons Inr show ?thesis by (simp add: explore_stack_Cons)
      next
        case (Found p)
        with Cons Inr show ?thesis by (simp add: explore_stack_Cons)
      next
        case (Continue stack')
        from pop [OF Cons Inr Continue] Cons Inr Continue show ?thesis
          by (simp add: explore_stack_Cons)
      qed
    qed
  qed
qed

lemma explore_stack_path_ok:
  "\<forall>n\<in>set stack. node_inv graph rows cols tr tc n
     \<Longrightarrow> explore_stack graph rows cols md tr tc stack = Some r
     \<Longrightarrow> outcome_ok graph rows cols tr tc r"
proof (induction stack rule: explore_stack_induct [where graph = graph and fr = rows
          and fc = cols and md = md and tr = tr and tc = tc])
  case (pop stack)
  show ?case
  proof (cases stack)
    case Nil
    with pop.prems(2) show ?thesis by (auto simp: explore_stack_Nil outcome_ok_def)
  next
    case (Cons current rest)
    have cinv: "node_inv graph rows cols tr tc current"
      and rinv: "\<forall>n\<in>set rest. node_inv graph rows cols tr tc n"
      using pop.prems(1) Cons by simp_all
    show ?thesis
    proof (cases "cell_at graph (node_row current) (node_col current)")
      case (Inl e)
      with pop.prems(2) Cons show ?thesis by (auto simp: explore_stack_Cons outcome_ok_def)
    next
      case (Inr cell)
      let ?res = "inner_loop graph rows cols md tr tc current (drop 2 cell) (take 1 cell)
                    [1..md] (node_row current) (node_col current) rest"
      have ok: "result_ok graph rows cols tr tc ?res"
        by (rule pop_inv [OF cinv rinv Inr])
      show ?thesis
      proof (cases ?res)
        case (Raise e)
        with pop.prems(2) Cons Inr show ?thesis by (auto simp: explore_stack_Cons outcome_ok_def)
      next
        case (Found p)
        with pop.prems(2) Cons Inr have "r = Inr (Some p)" by (simp add: explore_stack_Cons)
        with ok Found show ?thesis by (simp add: result_ok_def outcome_ok_def)
      next
        case (Continue stack')
        with pop.prems(2) Cons Inr
        have run: "explore_stack graph rows cols md tr tc stack' = Some r"
          by (simp add: explore_stack_Cons)
        have "\<forall>n\<in>set stack'. node_inv graph rows cols tr tc n"
          using ok Continue by (simp add: result_ok_def)
        from pop.IH [OF Cons Inr Continue this run] show ?thesis .
      qed
    qed
  qed
qed

lemma explore_path_ok:
  assumes "explore_maze_depth_limited graph rows cols md tr tc = Some (Inr (Some s))"
  shows "path_ok graph rows cols tr tc s"
proof -
  have "outcome_ok graph rows cols tr tc (Inr (Some s))"
    using assms unfolding explore_maze_depth_limited_def
    by (rule explore_stack_path_ok [OF initial_stack_inv])
  then show ?thesis by (simp add: outcome_ok_def)
qed

lemma iddfs_loop_result:
  "iddfs_loop graph rows cols limit tr tc md = Some (Inr s) \<Longrightarrow>
     s = no_solution
     \<or> (\<exists>d. explore_maze_depth_limited graph rows cols d tr tc = Some (Inr (Some s)))"
proof (induction graph rows cols limit tr tc md rule: iddfs_loop.induct)
  case (1 graph rows cols limit tr tc md)
  show ?case
  proof (cases "md \<le> limit")
    case False
    with "1.prems" show ?thesis by (simp add: iddfs_loop.simps [of _ _ _ _ _ _ md])
  next
    case True
    show ?thesis
    proof (cases "explore_maze_depth_limited graph rows cols md tr tc")
      case None
      with "1.prems" True show ?thesis by (simp add: iddfs_loop.simps [of _ _ _ _ _ _ md])
    next
      case (Some r)
      show ?thesis
      proof (cases r)
        case (Inl e)
        with "1.prems" True Some show ?thesis by (simp add: iddfs_loop.simps [of _ _ _ _ _ _ md])
      next
        case (Inr result)
        show ?thesis
        proof (cases "truthy result")
          case True
          then obtain p where "result = Some p" by (cases result) auto
          with "1.prems" \<open>md \<le> limit\<close> Some Inr True show ?thesis
            by (auto simp: iddfs_loop.simps [of _ _ _ _ _ _ md])
        next
          case False
          with "1.prems" \<open>md \<le> limit\<close> Some Inr
          have "iddfs_loop graph rows cols limit tr tc (md + 1) = Some (Inr s)"
            by (simp add: iddfs_loop.simps [of _ _ _ _ _ _ md])
          from "1.IH" [OF \<open>md \<le> limit\<close> Some Inr False this] show ?thesis .
        qed
      qed
    qed
  qed
qed

lemma solve_path_ok:
  assumes "iterative_deepening_dfs graph rows cols = Some (Inr s)" and "s \<noteq> no_solution"
  shows "path_ok graph rows cols (rows - 1) (cols - 1) s"
  using assms iddfs_loop_result explore_path_ok
  unfolding iterative_deepening_dfs_def by blast

lemma cell_at_shape:
  assumes "grid_shape graph rows cols" and "is_valid_bound r c rows cols"
  shows "\<exists>cell. cell_at graph r c = Inr cell \<and> cell \<in> set (graph ! nat r)"
proof -
  from assms have r: "0 \<le> r" "r < int (length graph)" and c: "0 \<le> c" "c < cols"
    by (simp_all add: grid_shape_def is_valid_bound_def)
  then have "graph ! nat r \<in> set graph" by simp
  then have "int (length (graph ! nat r)) = cols"
    using assms(1) by (simp add: grid_shape_def list_all_iff)
  with r c show ?thesis
    by (simp add: cell_at_def item_at_def)
qed


lemma inner_loop_safe:
  assumes shape: "grid_shape graph rows cols"
  shows "\<forall>n\<in>set stack. node_in_grid rows cols n
     \<Longrightarrow> safe_result rows cols d
           (inner_loop graph rows cols md tr tc current d color counts row col stack)"
proof (induction counts arbitrary: row col stack)
  case Nil
  then show ?case by (simp add: safe_result_def)
next
  case (Cons count counts)
  show ?case
  proof (cases "directions (upper d)")
    case None
    then show ?thesis
      by (simp add: get_next_position_def safe_result_def recognized_def)
  next
    case (Some delta)
    obtain di dj where delta: "delta = (di, dj)" by (cases delta)
    have gnp: "get_next_position d row col = Inr (row + di, col + dj)"
      by (simp add: get_next_position_def Some delta)
    show ?thesis
    proof (cases "is_valid_bound (row + di) (col + dj) rows cols")
      case False
      then show ?thesis using Cons.prems by (simp add: gnp safe_result_def)
    next
      case True
      from cell_at_shape [OF shape True] obtain cell where
        cell: "cell_at graph (row + di) (col + dj) = Inr cell" by blast
      let ?node = "\<lparr>node_row = row + di, node_col = col + dj,
                     explored = insert (PairE (row + di) (col + dj)) (explored current),
                     path = path current @ [str_int count @ d],
                     depth = depth current + 1\<rparr>"
      have "\<forall>n\<in>set (?node # stack). node_in_grid rows cols n"
        using Cons.prems True by (simp add: node_in_grid_def)
      from Cons.IH [OF this] Cons.IH [OF Cons.prems] show ?thesis
        using True cell by (auto simp: gnp safe_result_def)
    qed
  qed
qed

lemma initial_stack_in_grid:
  "grid_shape graph rows cols \<Longrightarrow> \<forall>n\<in>set initial_stack. node_in_grid rows cols n"
  by (simp add: initial_stack_def node_in_grid_def grid_shape_def is_valid_bound_def)

lemma explore_stack_no_index_error:
  assumes shape: "grid_shape graph rows cols"
  shows "\<forall>n\<in>set stack. node_in_grid rows cols n
     \<Longrightarrow> explore_stack graph rows cols md tr tc stack \<noteq> Some (Inl IndexError)"
proof (induction stack rule: explore_stack_induct [where graph = graph and fr = rows
          and fc = cols and md = md and tr = tr and tc = tc])
  case (pop stack)
  show ?case
  proof (cases stack)
    case Nil
    then show ?thesis by (simp add: explore_stack_Nil)
  next
    case (Cons current rest)
    have "is_valid_bound (node_row current) (node_col current) rows cols"
      using pop.prems Cons by (simp add: node_in_grid_def)
    from cell_at_shape [OF shape this] obtain cell where
      cell: "cell_at graph (node_row current) (node_col current) = Inr cell" by blast
    let ?res = "inner_loop graph rows cols md tr tc current (drop 2 cell) (take 1 cell)
                  [1..md] (node_row current) (node_col current) rest"
    have "\<forall>n\<in>set rest. node_in_grid rows cols n" using pop.prems Cons by simp
    then have safe: "safe_result rows cols (drop 2 cell) ?res"
      by (rule inner_loop_safe [OF shape])
    show ?thesis
    proof (cases ?res)
      case (Raise e)
      with safe Cons cell show ?thesis by (simp add: explore_stack_Cons safe_result_def)
    next
      case (Found p)
      with Cons cell show ?thesis by (simp add: explore_stack_Cons)
    next
      case (Continue stack')
      with safe have "\<forall>n\<in>set stack'. node_in_grid rows cols n"
        by (simp add: safe_result_def)
      from pop.IH [OF Cons cell Continue this] Cons cell Continue show ?thesis
        by (simp add: explore_stack_Cons)
    qed
  qed
qed





lemma path_ok_parse:
  assumes "path_ok graph rows cols tr tc s"
  shows "\<exists>steps. replay (0, 0) (parse_path s) = Some steps
           \<and> last (traversed steps) = (tr, tc)
           \<and> list_all (in_grid rows cols) (traversed steps)
           \<and> distinct (map landing steps)
           \<and> list_all (color_change graph) (butlast steps)"
proof -
  from assms obtain ls steps where
    ne: "ls \<noteq> []" and s: "s = join_sp (map label_str ls)" and
    r: "replay (0, 0) ls = Some steps" and
    l: "last (traversed steps) = (tr, tc)" and
    inb: "\<forall>p\<in>set (concat (map snd steps)). in_grid rows cols p" and
    cne: "concat (map snd steps) \<noteq> []" and
    dis: "distinct (map landing steps)" and
    cc: "\<forall>st\<in>set (butlast steps). color_change graph st"
    unfolding path_ok_def by blast
  have rec: "\<forall>l\<in>set ls. recognized (snd l)"
    using replay_recognized [OF r] by blast
  have pp: "parse_path s = ls"
    unfolding s by (rule parse_path_join [OF ne rec])
  from cne obtain p where p: "p \<in> set (concat (map snd steps))"
    by (cases "concat (map snd steps)") auto
  with inb have "in_grid rows cols p" by blast
  then have "in_grid rows cols (0, 0)"
    by (simp add: in_grid_def is_valid_bound_def)
  with inb have all: "list_all (in_grid rows cols) (traversed steps)"
    by (simp add: traversed_def list_all_iff)
  have cc': "list_all (color_change graph) (butlast steps)"
    using cc by (simp add: list_all_iff)
  show ?thesis
    by (rule exI [of _ steps]) (simp add: pp r l all dis cc')
qed

section \<open>The worked example\<close>

text \<open>
  C1. On the 3 by 4 grid of the module's docstring, \<open>iterative_deepening_dfs\<close> returns
  exactly the string \<^verbatim>\<open>1S 1E 2E 1S\<close>.
\<close>

theorem example_grid_path:
  "iterative_deepening_dfs
     [[''B-S'', ''R-E'', ''B-SE'', ''B-SW''],
      [''R-E'', ''B-E'', ''R-S'', ''R-S''],
      [''R-N'', ''R-NE'', ''B-N'', ''O'']] 3 4
   = Some (Inr ''1S 1E 2E 1S'')"
  by code_simp

section \<open>Properties of a returned path\<close>

text \<open>
  C2. Whenever \<open>iterative_deepening_dfs\<close> returns a path string and not the sentinel,
  the replay of the string from the origin (each label \<^verbatim>\<open><count><dir>\<close> taking
  \<open>count\<close> unit steps in its direction) goes through in-bounds positions only and ends
  on the target cell \<open>(rows - 1, cols - 1)\<close>. This holds for every grid, well formed or not.
\<close>

theorem replay_reaches_target:
  assumes "iterative_deepening_dfs graph rows cols = Some (Inr s)" and "s \<noteq> no_solution"
  shows "\<exists>steps. replay (0, 0) (parse_path s) = Some steps
           \<and> list_all (in_grid rows cols) (traversed steps)
           \<and> last (traversed steps) = (rows - 1, cols - 1)"
proof -
  from path_ok_parse [OF solve_path_ok [OF assms]] obtain steps where
    "replay (0, 0) (parse_path s) = Some steps"
    "last (traversed steps) = (rows - 1, cols - 1)"
    "list_all (in_grid rows cols) (traversed steps)"
    by blast
  then show ?thesis by blast
qed

lemma example_not_sentinel: "''1S 1E 2E 1S'' \<noteq> no_solution"
  by (simp add: no_solution_def)

theorem replay_reaches_target_witness:
  "iterative_deepening_dfs
     [[''B-S'', ''R-E'', ''B-SE'', ''B-SW''],
      [''R-E'', ''B-E'', ''R-S'', ''R-S''],
      [''R-N'', ''R-NE'', ''B-N'', ''O'']] 3 4 = Some (Inr ''1S 1E 2E 1S'')
   \<and> ''1S 1E 2E 1S'' \<noteq> no_solution
   \<and> (\<exists>steps. replay (0, 0) (parse_path ''1S 1E 2E 1S'') = Some steps
         \<and> list_all (in_grid 3 4) (traversed steps)
         \<and> last (traversed steps) = (3 - 1, 4 - 1))"
proof -
  have run: "iterative_deepening_dfs
     [[''B-S'', ''R-E'', ''B-SE'', ''B-SW''],
      [''R-E'', ''B-E'', ''R-S'', ''R-S''],
      [''R-N'', ''R-NE'', ''B-N'', ''O'']] 3 4 = Some (Inr ''1S 1E 2E 1S'')"
    by code_simp
  show ?thesis
    by (rule conjI [OF run conjI [OF example_not_sentinel
          replay_reaches_target [OF run example_not_sentinel]]])
qed

text \<open>
  C4 as stated fails: the explored set records the landing cells only. On the well-formed
  3 by 3 grid below the returned path steps through \<open>(0, 1)\<close> on its first run and lands
  on it later, and lands on \<open>(1, 1)\<close> and steps through it later.
\<close>

theorem crossing_counterexample:
  "well_formed [[''B-E'', ''B-S'', ''R-SW''], [''B-N'', ''G-N'', ''B-N''], [''R-N'', ''R-E'', ''G-O'']] 3 3
   \<and> iterative_deepening_dfs
        [[''B-E'', ''B-S'', ''R-SW''], [''B-N'', ''G-N'', ''B-N''], [''R-N'', ''R-E'', ''G-O'']] 3 3
      = Some (Inr ''2E 1SW 1N 2S 1E'')
   \<and> map_option traversed (replay (0, 0) (parse_path ''2E 1SW 1N 2S 1E''))
      = Some [(0, 0), (0, 1), (0, 2), (1, 1), (0, 1), (1, 1), (2, 1), (2, 2)]
   \<and> \<not> distinct [(0, 0), (0, 1), (0, 2), (1, 1), (0, 1), (1, 1), (2, 1), (2::int, 2::int)]"
  by code_simp

text \<open>
  C4 (amended). In the replay of a returned path the cells on which the labels land are
  pairwise distinct. Nothing is said of the origin or of the cells a run only steps
  through.
\<close>

theorem landing_cells_distinct:
  assumes "iterative_deepening_dfs graph rows cols = Some (Inr s)" and "s \<noteq> no_solution"
  shows "\<exists>steps. replay (0, 0) (parse_path s) = Some steps \<and> distinct (map landing steps)"
proof -
  from path_ok_parse [OF solve_path_ok [OF assms]] obtain steps where
    "replay (0, 0) (parse_path s) = Some steps" "distinct (map landing steps)"
    by blast
  then show ?thesis by blast
qed

lemma crossing_not_sentinel: "''2E 1SW 1N 2S 1E'' \<noteq> no_solution"
  by (simp add: no_solution_def)

theorem landing_cells_distinct_witness:
  "iterative_deepening_dfs
     [[''B-E'', ''B-S'', ''R-SW''], [''B-N'', ''G-N'', ''B-N''], [''R-N'', ''R-E'', ''G-O'']] 3 3
     = Some (Inr ''2E 1SW 1N 2S 1E'')
   \<and> ''2E 1SW 1N 2S 1E'' \<noteq> no_solution
   \<and> (\<exists>steps. replay (0, 0) (parse_path ''2E 1SW 1N 2S 1E'') = Some steps
         \<and> distinct (map landing steps))"
proof -
  have run: "iterative_deepening_dfs
     [[''B-E'', ''B-S'', ''R-SW''], [''B-N'', ''G-N'', ''B-N''], [''R-N'', ''R-E'', ''G-O'']] 3 3
     = Some (Inr ''2E 1SW 1N 2S 1E'')"
    by code_simp
  show ?thesis
    by (rule conjI [OF run conjI [OF crossing_not_sentinel
          landing_cells_distinct [OF run crossing_not_sentinel]]])
qed

text \<open>
  C7 as stated fails for the final label: the target test comes before the colour test, so
  the last run may land on a target of the colour of the cell where it starts.
\<close>

theorem same_color_target_counterexample:
  "well_formed [[''B-E'', ''B-O'']] 1 2
   \<and> iterative_deepening_dfs [[''B-E'', ''B-O'']] 1 2 = Some (Inr ''1E'')
   \<and> replay (0, 0) (parse_path ''1E'') = Some [((0, 0), [(0, 1)])]
   \<and> landing ((0, 0), [(0, 1)]) = (0, 1)
   \<and> color_at [[''B-E'', ''B-O'']] (0, 0) = Some ''B''
   \<and> color_at [[''B-E'', ''B-O'']] (0, 1) = Some ''B''
   \<and> \<not> color_change [[''B-E'', ''B-O'']] ((0, 0), [(0, 1)])"
  by code_simp

text \<open>
  C7 (amended). In the replay of a returned path every label but the last starts on a cell
  and lands on a cell of different colours.
\<close>

theorem color_change_before_last:
  assumes "iterative_deepening_dfs graph rows cols = Some (Inr s)" and "s \<noteq> no_solution"
  shows "\<exists>steps. replay (0, 0) (parse_path s) = Some steps
           \<and> list_all (color_change graph) (butlast steps)"
proof -
  from path_ok_parse [OF solve_path_ok [OF assms]] obtain steps where
    "replay (0, 0) (parse_path s) = Some steps"
    "list_all (color_change graph) (butlast steps)"
    by blast
  then show ?thesis by blast
qed

lemma example_run:
  "iterative_deepening_dfs
     [[''B-S'', ''R-E'', ''B-SE'', ''B-SW''],
      [''R-E'', ''B-E'', ''R-S'', ''R-S''],
      [''R-N'', ''R-NE'', ''B-N'', ''O'']] 3 4 = Some (Inr ''1S 1E 2E 1S'')"
  by code_simp

theorem color_change_before_last_witness:
  "iterative_deepening_dfs
     [[''B-S'', ''R-E'', ''B-SE'', ''B-SW''],
      [''R-E'', ''B-E'', ''R-S'', ''R-S''],
      [''R-N'', ''R-NE'', ''B-N'', ''O'']] 3 4 = Some (Inr ''1S 1E 2E 1S'')
   \<and> ''1S 1E 2E 1S'' \<noteq> no_solution
   \<and> (\<exists>steps. replay (0, 0) (parse_path ''1S 1E 2E 1S'') = Some steps
         \<and> list_all (color_change
               [[''B-S'', ''R-E'', ''B-SE'', ''B-SW''],
                [''R-E'', ''B-E'', ''R-S'', ''R-S''],
                [''R-N'', ''R-NE'', ''B-N'', ''O'']]) (butlast steps))"
  by (rule conjI [OF example_run conjI [OF example_not_sentinel
        color_change_before_last [OF example_run example_not_sentinel]]])

section \<open>The initial node\<close>

text \<open>
  C3. The first explored set is \<^verbatim>\<open>set((0, 0))\<close>, that is \<open>{0}\<close>: it holds the integer
  0 and not the pair \<open>(0, 0)\<close>. On the well-formed 2 by 2 grid below the attempts with
  \<open>max_depth\<close> 1 and 2 return \<^verbatim>\<open>None\<close>; in the attempt with \<open>max_depth = 3\<close> the first
  round pushes a node at \<open>(0, 1)\<close>, and the round that pops it pushes a node at the origin.
\<close>

theorem origin_not_marked_explored:
  "explored (hd initial_stack) = {IntE 0}
   \<and> PairE 0 0 \<notin> explored (hd initial_stack)
   \<and> well_formed [[''B-E'', ''R-W''], [''R-N'', ''B-O'']] 2 2
   \<and> explore_maze_depth_limited [[''B-E'', ''R-W''], [''R-N'', ''B-O'']] 2 2 1 1 1
      = Some (Inr None)
   \<and> explore_maze_depth_limited [[''B-E'', ''R-W''], [''R-N'', ''B-O'']] 2 2 2 1 1
      = Some (Inr None)
   \<and> inner_loop [[''B-E'', ''R-W''], [''R-N'', ''B-O'']] 2 2 3 1 1 (hd initial_stack)
        (drop 2 ''B-E'') (take 1 ''B-E'') [1..3] 0 0 []
      = Continue [\<lparr>node_row = 0, node_col = 1, explored = {PairE 0 1, IntE 0},
                    path = [''1E''], depth = 2\<rparr>]
   \<and> inner_loop [[''B-E'', ''R-W''], [''R-N'', ''B-O'']] 2 2 3 1 1
        \<lparr>node_row = 0, node_col = 1, explored = {PairE 0 1, IntE 0},
           path = [''1E''], depth = 2\<rparr>
        (drop 2 ''R-W'') (take 1 ''R-W'') [1..3] 0 1 []
      = Continue [\<lparr>node_row = 0, node_col = 0,
                    explored = {PairE 0 0, PairE 0 1, IntE 0},
                    path = [''1E'', ''1W''], depth = 3\<rparr>]"
  by code_simp

section \<open>Malformed tokens and the grid of one cell\<close>

lemma upto_first: "1 \<le> md \<Longrightarrow> [1..md] = 1 # [2..md]"
  by (simp add: upto.simps [of 1 md])

lemma pop_unrecognized:
  assumes cell: "cell_at graph (node_row current) (node_col current) = Inr cell"
    and bad: "\<not> recognized (drop 2 cell)"
    and md: "1 \<le> max_depth"
  shows "explore_stack graph rows cols max_depth tr tc (current # rest)
           = Some (Inl (KeyError (upper (drop 2 cell))))"
proof -
  have "directions (upper (drop 2 cell)) = None"
    using bad unfolding recognized_def by blast
  then have "get_next_position (drop 2 cell) (node_row current) (node_col current)
          = Inl (KeyError (upper (drop 2 cell)))"
    by (simp add: get_next_position_def)
  then show ?thesis
    by (simp add: explore_stack_Cons cell upto_first [OF md])
qed

text \<open>
  C5 (amended). A round of the stack loop that pops a node on a cell whose direction is not
  recognized raises the lookup fault at its first step, for every depth limit of at least 1;
  it does not go on as if the cell had no movement. So, when the origin cell is such a cell
  and \<open>rows * cols \<ge> 1\<close>, \<open>iterative_deepening_dfs\<close> raises the fault in its first
  attempt.
\<close>

theorem unrecognized_direction_raises:
  assumes "cell_at graph (node_row current) (node_col current) = Inr cell"
    and "\<not> recognized (drop 2 cell)"
  shows "(1 \<le> max_depth \<longrightarrow>
            explore_stack graph rows cols max_depth tr tc (current # rest)
              = Some (Inl (KeyError (upper (drop 2 cell)))))
       \<and> (node_row current = 0 \<and> node_col current = 0 \<and> 1 \<le> rows * cols \<longrightarrow>
            iterative_deepening_dfs graph rows cols
              = Some (Inl (KeyError (upper (drop 2 cell)))))"
proof (intro conjI impI)
  assume "1 \<le> max_depth"
  then show "explore_stack graph rows cols max_depth tr tc (current # rest)
               = Some (Inl (KeyError (upper (drop 2 cell))))"
    by (rule pop_unrecognized [OF assms])
next
  assume o: "node_row current = 0 \<and> node_col current = 0 \<and> 1 \<le> rows * cols"
  let ?n = "\<lparr>node_row = 0, node_col = 0, explored = set [IntE 0, IntE 0], path = [],
              depth = 1\<rparr>"
  have c: "cell_at graph (node_row ?n) (node_col ?n) = Inr cell"
    using assms(1) o by simp
  have "explore_maze_depth_limited graph rows cols 1 (rows - 1) (cols - 1)
          = Some (Inl (KeyError (upper (drop 2 cell))))"
    unfolding explore_maze_depth_limited_def initial_stack_def
    by (rule pop_unrecognized [OF c assms(2)]) simp
  then show "iterative_deepening_dfs graph rows cols
               = Some (Inl (KeyError (upper (drop 2 cell))))"
    using o by (simp add: iterative_deepening_dfs_def iddfs_loop.simps [of _ _ _ _ _ _ 1])
qed

theorem unrecognized_direction_raises_witness:
  "cell_at [[''B-X'', ''R-O'']] (node_row (hd initial_stack)) (node_col (hd initial_stack))
     = Inr ''B-X''
   \<and> \<not> recognized (drop 2 ''B-X'')
   \<and> explore_stack [[''B-X'', ''R-O'']] 1 2 1 0 1 (hd initial_stack # [])
        = Some (Inl (KeyError (upper (drop 2 ''B-X''))))
   \<and> iterative_deepening_dfs [[''B-X'', ''R-O'']] 1 2
        = Some (Inl (KeyError (upper (drop 2 ''B-X''))))"
proof -
  have c: "cell_at [[''B-X'', ''R-O'']] (node_row (hd initial_stack)) (node_col (hd initial_stack))
             = Inr ''B-X''"
    by code_simp
  have b: "\<not> recognized (drop 2 ''B-X'')"
    by code_simp
  have o: "node_row (hd initial_stack) = 0 \<and> node_col (hd initial_stack) = 0
             \<and> (1::int) \<le> 1 * 2"
    by (simp add: initial_stack_def)
  have m: "(1::int) \<le> 1" by simp
  from unrecognized_direction_raises [OF c b, of 1 1 2 0 1 "[]"] c b o m
  show ?thesis by blast
qed

text \<open>
  C5 as stated fails: nothing checks the tokens before the search, and a token is looked
  up only when a node on its cell is popped. Here the bad token is on the target cell.
\<close>

theorem unvisited_bad_token_counterexample:
  "\<not> recognized (drop 2 ''R-X'')
   \<and> iterative_deepening_dfs [[''B-E'', ''R-X'']] 1 2 = Some (Inr ''1E'')"
  by code_simp

lemma upto_one: "[1..1] = [1::int]"
  by (simp add: upto.simps [of 1 1] upto.simps [of 2 1])

lemma str_int_one: "str_int 1 = ''1''"
  by code_simp

lemma single_cell_explore:
  "explore_maze_depth_limited [[cell]] 1 1 1 0 0 =
     (case directions (upper (drop 2 cell)) of
        None \<Rightarrow> Some (Inl (KeyError (upper (drop 2 cell))))
      | Some delta \<Rightarrow>
          if delta = (0, 0) then Some (Inr (Some (''1'' @ drop 2 cell)))
          else Some (Inr None))"
proof -
  have c: "cell_at [[cell]] 0 0 = Inr cell"
    by (simp add: cell_at_def item_at_def)
  show ?thesis
    by (auto simp: explore_maze_depth_limited_def initial_stack_def explore_stack_Cons
        explore_stack_Nil c upto_one get_next_position_def is_valid_bound_def str_int_one
        split: option.splits)
qed

text \<open>
  C6 (amended). On a grid of one cell the result depends on the direction of the cell: the
  one-label path \<^verbatim>\<open>1<dir>\<close> when the direction is the no-movement label, the sentinel
  when it is one of the eight compass directions, and the lookup fault when it is not
  recognized.
\<close>

theorem single_cell_grid:
  "(directions (upper (drop 2 cell)) = Some (0, 0) \<longrightarrow>
      iterative_deepening_dfs [[cell]] 1 1 = Some (Inr (''1'' @ drop 2 cell)))
   \<and> (recognized (drop 2 cell) \<and> directions (upper (drop 2 cell)) \<noteq> Some (0, 0) \<longrightarrow>
      iterative_deepening_dfs [[cell]] 1 1 = Some (Inr no_solution))
   \<and> (\<not> recognized (drop 2 cell) \<longrightarrow>
      iterative_deepening_dfs [[cell]] 1 1 = Some (Inl (KeyError (upper (drop 2 cell)))))"
proof (cases "directions (upper (drop 2 cell))")
  case None
  then show ?thesis
    by (simp add: iterative_deepening_dfs_def iddfs_loop.simps [of _ _ _ _ _ _ 1]
        single_cell_explore recognized_def)
next
  case (Some delta)
  then show ?thesis
    by (simp add: iterative_deepening_dfs_def iddfs_loop.simps [of _ _ _ _ _ _ 1]
        iddfs_loop.simps [of _ _ _ _ _ _ 2] single_cell_explore recognized_def)
qed

theorem single_cell_grid_witness:
  "directions (upper (drop 2 ''B-o'')) = Some (0, 0)
   \<and> iterative_deepening_dfs [[''B-o'']] 1 1 = Some (Inr (''1'' @ drop 2 ''B-o''))
   \<and> recognized (drop 2 ''B-S'') \<and> directions (upper (drop 2 ''B-S'')) \<noteq> Some (0, 0)
   \<and> iterative_deepening_dfs [[''B-S'']] 1 1 = Some (Inr no_solution)
   \<and> \<not> recognized (drop 2 ''O'')
   \<and> iterative_deepening_dfs [[''O'']] 1 1 = Some (Inl (KeyError (upper (drop 2 ''O''))))"
proof -
  have a: "directions (upper (drop 2 ''B-o'')) = Some (0, 0)" by code_simp
  have b: "recognized (drop 2 ''B-S'') \<and> directions (upper (drop 2 ''B-S'')) \<noteq> Some (0, 0)"
    by code_simp
  have c: "\<not> recognized (drop 2 ''O'')" by code_simp
  from single_cell_grid [of "''B-o''"] a
  have 1: "iterative_deepening_dfs [[''B-o'']] 1 1 = Some (Inr (''1'' @ drop 2 ''B-o''))"
    by blast
  from single_cell_grid [of "''B-S''"] b
  have 2: "iterative_deepening_dfs [[''B-S'']] 1 1 = Some (Inr no_solution)"
    by blast
  from single_cell_grid [of "''O''"] c
  have 3: "iterative_deepening_dfs [[''O'']] 1 1 = Some (Inl (KeyError (upper (drop 2 ''O''))))"
    by blast
  from a 1 b 2 c 3 show ?thesis by blast
qed

text \<open>
  C6 as stated fails: the code has no test for an origin that is the target. A cell
  \<^verbatim>\<open>B-O\<close> gives the path of one step \<^verbatim>\<open>1O\<close>, a cell \<^verbatim>\<open>B-S\<close> gives the sentinel.
\<close>

theorem single_cell_counterexample:
  "well_formed [[''B-O'']] 1 1
   \<and> iterative_deepening_dfs [[''B-O'']] 1 1 = Some (Inr ''1O'')
   \<and> well_formed [[''B-S'']] 1 1
   \<and> iterative_deepening_dfs [[''B-S'']] 1 1 = Some (Inr no_solution)"
  by code_simp

section \<open>The driver, termination and safety\<close>









text \<open>
  C10. On a grid of \<open>rows \<ge> 1\<close> lines of \<open>cols \<ge> 1\<close> tokens the explorer terminates and
  never raises \<open>IndexError\<close>: every read \<^verbatim>\<open>graph[r][c]\<close> has \<open>0 \<le> r < rows\<close> and
  \<open>0 \<le> c < cols\<close>. The directions of the tokens play no part here.
\<close>

theorem cell_access_in_bounds:
  assumes "grid_shape graph rows cols"
  shows "\<exists>r. explore_maze_depth_limited graph rows cols max_depth target_row target_col = Some r
           \<and> r \<noteq> Inl IndexError"
proof -
  have "\<forall>n\<in>set initial_stack. node_in_grid rows cols n"
    using assms by (rule initial_stack_in_grid)
  then have "explore_maze_depth_limited graph rows cols max_depth target_row target_col
               \<noteq> Some (Inl IndexError)"
    unfolding explore_maze_depth_limited_def
    by (rule explore_stack_no_index_error [OF assms])
  moreover obtain r where
    "explore_maze_depth_limited graph rows cols max_depth target_row target_col = Some r"
    unfolding explore_maze_depth_limited_def using explore_stack_terminates by blast
  ultimately show ?thesis by auto
qed

lemma grid_2x2_shape: "grid_shape [[''B-E'', ''R-S''], [''R-N'', ''G-O'']] 2 2"
  by code_simp

theorem cell_access_in_bounds_witness:
  "grid_shape [[''B-E'', ''R-S''], [''R-N'', ''G-O'']] 2 2
   \<and> (\<exists>r. explore_maze_depth_limited [[''B-E'', ''R-S''], [''R-N'', ''G-O'']] 2 2 3 1 1 = Some r
         \<and> r \<noteq> Inl IndexError)"
  by (rule conjI [OF grid_2x2_shape cell_access_in_bounds [OF grid_2x2_shape]])

end
